theory Spec2Isabelle
  imports Main "HOL-Library.Word" "HOL-Library.Multiset"
begin

section \<open>Data model\<close>

text \<open>
  The program (\<^verbatim>\<open>hex_merge.py\<close>) works on Python values: addresses are unbounded
  integers (\<open>int\<close>), byte strings (\<^verbatim>\<open>bytes\<close>) are lists of 8-bit words, an addressed
  chunk is the pair \<^verbatim>\<open>(addr, data)\<close> that the two readers yield, and a span is the
  triple \<^verbatim>\<open>(start, end, data)\<close> that \<^verbatim>\<open>collect_segments\<close> builds and merges.
\<close>

type_synonym byte = "8 word"
type_synonym chunk = "int \<times> byte list"
type_synonym span = "int \<times> int \<times> byte list"

definition span_start :: "span \<Rightarrow> int" where
  "span_start s = fst s"

definition span_end :: "span \<Rightarrow> int" where
  "span_end s = fst (snd s)"

definition span_bytes :: "span \<Rightarrow> byte list" where
  "span_bytes s = snd (snd s)"

text \<open>Python slices \<^verbatim>\<open>xs[:k]\<close>, \<^verbatim>\<open>xs[k:]\<close> and \<^verbatim>\<open>xs[i:j]\<close>: a negative index counts
  from the end, and every index is clamped to \<open>0 .. len xs\<close>.\<close>

definition slice_index :: "nat \<Rightarrow> int \<Rightarrow> nat" where
  "slice_index n k = (if k < 0 then nat (int n + k) else min n (nat k))"

definition slice_to :: "'a list \<Rightarrow> int \<Rightarrow> 'a list" where
  "slice_to xs k = take (slice_index (length xs) k) xs"

definition slice_from :: "'a list \<Rightarrow> int \<Rightarrow> 'a list" where
  "slice_from xs k = drop (slice_index (length xs) k) xs"

definition py_slice :: "'a list \<Rightarrow> int \<Rightarrow> int \<Rightarrow> 'a list" where
  "py_slice xs i j =
     (let a = slice_index (length xs) i; b = slice_index (length xs) j
      in take (b - a) (drop a xs))"

section \<open>The segment merger (second half of \<^verbatim>\<open>collect_segments\<close>)\<close>

text \<open>\<^verbatim>\<open>segs.append((addr, addr + len(data), data))\<close>, lines 66 and 72.\<close>

definition seg_of_chunk :: "chunk \<Rightarrow> span" where
  "seg_of_chunk c = (fst c, fst c + int (length (snd c)), snd c)"

text \<open>
  One iteration of the loop of lines 80 to 92 on the list \<^verbatim>\<open>merged\<close>;
  \<^verbatim>\<open>merged[-1] = v\<close> replaces the last element.
\<close>

definition merge_step :: "span list \<Rightarrow> span \<Rightarrow> span list" where
  "merge_step merged seg =
     (case seg of (st, ed, data) \<Rightarrow>
        if merged = [] then merged @ [(st, ed, data)]
        else
          (case last merged of (lst, led, ldata) \<Rightarrow>
             if st \<le> led then
               (let new_ed = max ed led in
                if st < lst then
                  butlast merged @ [(st, new_ed, slice_to data (lst - st) @ ldata)]
                else if ed > led then
                  butlast merged @ [(lst, new_ed, ldata @ slice_from data (led - st))]
                else merged)
             else merged @ [(st, ed, data)]))"

text \<open>\<^verbatim>\<open>segs.sort(key=lambda x: x[0])\<close> is a stable sort on the start address, as
  \<^const>\<open>sort_key\<close> is; then the loop runs over the sorted list from the empty
  \<^verbatim>\<open>merged\<close>.\<close>

definition merge_segs :: "span list \<Rightarrow> span list" where
  "merge_segs segs = foldl merge_step [] (sort_key fst segs)"

text \<open>The merger on a list of addressed chunks.\<close>

definition merge_chunks :: "chunk list \<Rightarrow> span list" where
  "merge_chunks cs = merge_segs (map seg_of_chunk cs)"

section \<open>Python library functions used by the readers\<close>

text \<open>
  Strings are Python \<^verbatim>\<open>str\<close> values restricted to ASCII: the HEX reader opens its file
  with \<^verbatim>\<open>encoding='ascii', errors='ignore'\<close>, so every character it sees is below 128,
  and command-line items are taken to be ASCII as well.
\<close>

datatype py_exn =
    ValueError          \<comment> \<open>\<^verbatim>\<open>int()\<close>, \<^verbatim>\<open>bytes.fromhex\<close>, \<^verbatim>\<open>bytes([pad])\<close>\<close>
  | StructError         \<comment> \<open>\<^verbatim>\<open>struct.unpack\<close> on a buffer of the wrong size\<close>
  | OSError             \<comment> \<open>a file that exists and cannot be read\<close>
  | SystemExit int      \<comment> \<open>\<^verbatim>\<open>sys.exit(code)\<close>\<close>

text \<open>\<^verbatim>\<open>str.strip()\<close> removes the characters of \<^verbatim>\<open>str.isspace\<close>: for ASCII these are
  9 to 13, 28 to 31 and 32.\<close>

definition py_isspace :: "char \<Rightarrow> bool" where
  "py_isspace c =
     (let n = (of_char c :: nat) in (9 \<le> n \<and> n \<le> 13) \<or> (28 \<le> n \<and> n \<le> 31) \<or> n = 32)"

definition strip :: "string \<Rightarrow> string" where
  "strip s = rev (dropWhile py_isspace (rev (dropWhile py_isspace s)))"

text \<open>The C-level white space that \<^verbatim>\<open>int()\<close> (on an ASCII string) and
  \<^verbatim>\<open>bytes.fromhex\<close> skip: 9 to 13 and 32.\<close>

definition c_isspace :: "char \<Rightarrow> bool" where
  "c_isspace c = (let n = (of_char c :: nat) in (9 \<le> n \<and> n \<le> 13) \<or> n = 32)"

text \<open>The value of a character as a digit: \<open>0\<close> to \<open>9\<close>, then the letters of either
  case as 10 to 35.\<close>

definition digit_value :: "char \<Rightarrow> nat option" where
  "digit_value c =
     (let n = (of_char c :: nat) in
      if 48 \<le> n \<and> n \<le> 57 then Some (n - 48)
      else if 97 \<le> n \<and> n \<le> 122 then Some (n - 87)
      else if 65 \<le> n \<and> n \<le> 90 then Some (n - 55)
      else None)"

definition is_digit :: "nat \<Rightarrow> char \<Rightarrow> bool" where
  "is_digit b c = (case digit_value c of Some v \<Rightarrow> v < b | None \<Rightarrow> False)"

fun double_underscore :: "string \<Rightarrow> bool" where
  "double_underscore (c # d # cs) =
     ((c = CHR ''_'' \<and> d = CHR ''_'') \<or> double_underscore (d # cs))"
| "double_underscore _ = False"

definition digits_value :: "nat \<Rightarrow> string \<Rightarrow> int" where
  "digits_value b ds =
     foldl (\<lambda>acc c. case digit_value c of Some v \<Rightarrow> acc * int b + int v | None \<Rightarrow> acc)
       0 ds"

text \<open>The default of \<^verbatim>\<open>sys.get_int_max_str_digits()\<close>; it limits the bases that are not
  a power of two.\<close>

definition int_max_str_digits :: nat where
  "int_max_str_digits = 4300"

text \<open>
  \<^verbatim>\<open>int(s, base)\<close> for \<open>base\<close> 0 or 16 (the two the program uses), \<open>None\<close> for
  ValueError: leading white space, a sign, for base 16 an optional \<^verbatim>\<open>0x\<close>, for base 0 the
  prefixes \<^verbatim>\<open>0x 0o 0b\<close> (a decimal literal with a leading zero must be zero), one
  underscore after the prefix, digits separated by single underscores, trailing white
  space.
\<close>

definition base_of_prefix :: "string \<Rightarrow> nat \<times> bool" where
  "base_of_prefix s =
     (case s of
        c # d # _ \<Rightarrow>
          if c \<noteq> CHR ''0'' then (10, False)
          else if d = CHR ''x'' \<or> d = CHR ''X'' then (16, False)
          else if d = CHR ''o'' \<or> d = CHR ''O'' then (8, False)
          else if d = CHR ''b'' \<or> d = CHR ''B'' then (2, False)
          else (10, True)
      | [c] \<Rightarrow> if c \<noteq> CHR ''0'' then (10, False) else (10, True)
      | [] \<Rightarrow> (10, False))"

definition has_prefix :: "nat \<Rightarrow> string \<Rightarrow> bool" where
  "has_prefix b s =
     (case s of
        c # d # _ \<Rightarrow>
          c = CHR ''0'' \<and>
          ((b = 16 \<and> (d = CHR ''x'' \<or> d = CHR ''X'')) \<or>
           (b = 8 \<and> (d = CHR ''o'' \<or> d = CHR ''O'')) \<or>
           (b = 2 \<and> (d = CHR ''b'' \<or> d = CHR ''B'')))
      | _ \<Rightarrow> False)"

text \<open>The prefix of the base, and one underscore after it.\<close>

definition skip_prefix :: "nat \<Rightarrow> string \<Rightarrow> string" where
  "skip_prefix b s =
     (if has_prefix b s
      then (let r = drop 2 s in if r \<noteq> [] \<and> hd r = CHR ''_'' then tl r else r)
      else s)"

text \<open>The digits, which must reach the trailing white space: at least one digit, no
  underscore first, last or doubled; \<open>nz\<close> is set for a decimal literal with a leading
  zero, whose value must be zero.\<close>

definition scan_digits :: "nat \<Rightarrow> bool \<Rightarrow> string \<Rightarrow> int option" where
  "scan_digits b nz s =
     (let ds = takeWhile (\<lambda>c. is_digit b c \<or> c = CHR ''_'') s;
          rest = dropWhile (\<lambda>c. is_digit b c \<or> c = CHR ''_'') s;
          v = digits_value b ds
      in if ds = [] \<or> hd ds = CHR ''_'' \<or> last ds = CHR ''_'' \<or> double_underscore ds
            \<or> \<not> list_all c_isspace rest
            \<or> (nz \<and> v \<noteq> 0)
            \<or> (b = 10 \<and> int_max_str_digits < length (filter (\<lambda>c. c \<noteq> CHR ''_'') ds))
         then None
         else Some v)"

text \<open>The sign, if there is one.\<close>

definition skip_sign :: "string \<Rightarrow> string" where
  "skip_sign s =
     (if s \<noteq> [] \<and> (hd s = CHR ''+'' \<or> hd s = CHR ''-'') then tl s else s)"

definition py_int :: "nat \<Rightarrow> string \<Rightarrow> int option" where
  "py_int base s =
     (let s1 = dropWhile c_isspace s;
          neg = (s1 \<noteq> [] \<and> hd s1 = CHR ''-'');
          s2 = skip_sign s1;
          bz = (if base = 0 then base_of_prefix s2 else (base, False))
      in case scan_digits (fst bz) (snd bz) (skip_prefix (fst bz) s2) of
           None \<Rightarrow> None
         | Some v \<Rightarrow> Some (if neg then - v else v))"

text \<open>\<^verbatim>\<open>bytes.fromhex(s)\<close>: white space is skipped before a pair of hexadecimal digits,
  never inside one.\<close>

fun fromhex :: "string \<Rightarrow> py_exn + byte list" where
  "fromhex [] = Inr []"
| "fromhex [c] = (if c_isspace c then Inr [] else Inl ValueError)"
| "fromhex (c # d # cs) =
     (if c_isspace c then fromhex (d # cs)
      else if is_digit 16 c \<and> is_digit 16 d then
        (case fromhex cs of
           Inl e \<Rightarrow> Inl e
         | Inr bs \<Rightarrow> Inr (word_of_int (digits_value 16 [c, d]) # bs))
      else Inl ValueError)"

text \<open>\<^verbatim>\<open>struct.unpack('>H', data)[0]\<close>: exactly two bytes, big-endian.\<close>

definition unpack_H :: "byte list \<Rightarrow> py_exn + int" where
  "unpack_H data =
     (case data of [hi, lo] \<Rightarrow> Inr (uint hi * 256 + uint lo) | _ \<Rightarrow> Inl StructError)"

text \<open>Decoding with \<^verbatim>\<open>encoding='ascii', errors='ignore'\<close> drops every byte above 127.\<close>

definition decode_ascii_ignore :: "byte list \<Rightarrow> string" where
  "decode_ascii_ignore bs = map (\<lambda>b. char_of (unat b)) (filter (\<lambda>b. unat b < 128) bs)"

text \<open>
  Iterating a file opened in text mode with universal newlines: a line ends at
  \<^verbatim>\<open>\n\<close>, \<^verbatim>\<open>\r\n\<close> or \<^verbatim>\<open>\r\<close>, each handed over as \<^verbatim>\<open>\n\<close>; the last line may have no
  terminator. The first argument is the current line, reversed.
\<close>

fun text_lines :: "string \<Rightarrow> string \<Rightarrow> string list" where
  "text_lines cur [] = (if cur = [] then [] else [rev cur])"
| "text_lines cur (c # cs) =
     (if c = CHR 0x0A then rev (CHR 0x0A # cur) # text_lines [] cs
      else if c = CHR 0x0D then
        (case cs of
           d # ds \<Rightarrow>
             if d = CHR 0x0A then rev (CHR 0x0A # cur) # text_lines [] ds
             else rev (CHR 0x0A # cur) # text_lines [] cs
         | [] \<Rightarrow> rev (CHR 0x0A # cur) # text_lines [] cs)
      else text_lines (c # cur) cs)"

section \<open>The HEX decoder (\<^verbatim>\<open>read_hex_records\<close>)\<close>

text \<open>Lines 25 to 28: the three fixed-width fields and the payload.\<close>

definition parse_record :: "string \<Rightarrow> py_exn + (int \<times> int \<times> int \<times> byte list)" where
  "parse_record line =
     (case py_int 16 (py_slice line 1 3) of
        None \<Rightarrow> Inl ValueError
      | Some cnt \<Rightarrow>
     (case py_int 16 (py_slice line 3 7) of
        None \<Rightarrow> Inl ValueError
      | Some addr \<Rightarrow>
     (case py_int 16 (py_slice line 7 9) of
        None \<Rightarrow> Inl ValueError
      | Some rtype \<Rightarrow>
     (case fromhex (py_slice line 9 (9 + cnt * 2)) of
        Inl e \<Rightarrow> Inl e
      | Inr data \<Rightarrow> Inr (cnt, addr, rtype, data)))))"

text \<open>
  The loop of lines 22 to 34 over the lines of the file, from the extended address
  \<open>ext_addr\<close>. The function is a generator: the result is the chunks it yields, in order,
  and the exception that ends the iteration, if any.
\<close>

fun hex_loop :: "int \<Rightarrow> string list \<Rightarrow> chunk list \<times> py_exn option" where
  "hex_loop ext_addr [] = ([], None)"
| "hex_loop ext_addr (l # ls) =
     (let line = strip l in
      if line = [] \<or> hd line \<noteq> CHR '':'' then hex_loop ext_addr ls
      else
        (case parse_record line of
           Inl e \<Rightarrow> ([], Some e)
         | Inr (cnt, addr, rtype, data) \<Rightarrow>
             if rtype = 0 then
               (case hex_loop ext_addr ls of (cs, r) \<Rightarrow> ((ext_addr + addr, data) # cs, r))
             else if rtype = 4 then
               (case unpack_H data of
                  Inl e \<Rightarrow> ([], Some e)
                | Inr v \<Rightarrow> hex_loop (push_bit 16 v) ls)
             else if rtype = 1 then ([], None)
             else hex_loop ext_addr ls))"

text \<open>The decoder on the text of a file and on its bytes.\<close>

definition read_hex_text :: "string \<Rightarrow> chunk list \<times> py_exn option" where
  "read_hex_text txt = hex_loop 0 (text_lines [] txt)"

definition read_hex_records :: "byte list \<Rightarrow> chunk list \<times> py_exn option" where
  "read_hex_records bs = read_hex_text (decode_ascii_ignore bs)"

section \<open>The BIN loader (\<^verbatim>\<open>read_bin\<close>)\<close>

definition read_bin :: "byte list \<Rightarrow> int \<Rightarrow> chunk list" where
  "read_bin contents load_addr = [(load_addr, contents)]"

section \<open>Collecting the segments (\<^verbatim>\<open>collect_segments\<close>)\<close>

text \<open>
  What the program asks of \<^verbatim>\<open>pathlib\<close>, for the path built from a string:
  \<^verbatim>\<open>p.exists()\<close>, \<^verbatim>\<open>p.suffix\<close>, and the contents of the file (\<open>None\<close> when reading
  raises \<^verbatim>\<open>OSError\<close>).
\<close>

record platform =
  path_exists :: "string \<Rightarrow> bool"
  path_suffix :: "string \<Rightarrow> string"
  read_bytes :: "string \<Rightarrow> byte list option"

text \<open>\<^verbatim>\<open>str.lower()\<close> on ASCII.\<close>

definition lower :: "string \<Rightarrow> string" where
  "lower s =
     map (\<lambda>c. let n = (of_char c :: nat) in if 65 \<le> n \<and> n \<le> 90 then char_of (n + 32) else c) s"

text \<open>\<^verbatim>\<open>item.rsplit('@', 1)\<close> for an item that contains the separator: the text before
  the last separator and the text after it.\<close>

definition rsplit1 :: "char \<Rightarrow> string \<Rightarrow> string \<times> string" where
  "rsplit1 sep s =
     (rev (tl (dropWhile (\<lambda>c. c \<noteq> sep) (rev s))), rev (takeWhile (\<lambda>c. c \<noteq> sep) (rev s)))"

text \<open>Lines 51 to 57: the path and the load address of an item.\<close>

definition split_item :: "string \<Rightarrow> py_exn + (string \<times> int option)" where
  "split_item item =
     (if CHR ''@'' \<in> set item then
        (case rsplit1 (CHR ''@'') item of
           (path_str, addr_str) \<Rightarrow>
             (case py_int 0 addr_str of
                None \<Rightarrow> Inl ValueError
              | Some load_addr \<Rightarrow> Inr (path_str, Some load_addr)))
      else Inr (item, None))"

text \<open>One iteration of the loop of lines 49 to 74: the spans it appends to
  \<^verbatim>\<open>segs\<close>, or the exception that leaves the function. An input that does not exist
  or has another suffix appends nothing; the messages printed for the skipped inputs are
  left out of the model.\<close>

definition load_item :: "platform \<Rightarrow> string \<Rightarrow> py_exn + span list" where
  "load_item pf item =
     (case split_item item of
        Inl e \<Rightarrow> Inl e
      | Inr (p, load_addr) \<Rightarrow>
          if \<not> path_exists pf p then Inr []
          else if lower (path_suffix pf p) = ''.hex'' then
            (case read_bytes pf p of
               None \<Rightarrow> Inl OSError
             | Some bs \<Rightarrow>
                 (case read_hex_records bs of
                    (cs, Some e) \<Rightarrow> Inl e
                  | (cs, None) \<Rightarrow> Inr (map seg_of_chunk cs)))
          else if lower (path_suffix pf p) = ''.bin'' then
            (case load_addr of
               None \<Rightarrow> Inl (SystemExit 1)
             | Some a \<Rightarrow>
                 (case read_bytes pf p of
                    None \<Rightarrow> Inl OSError
                  | Some bs \<Rightarrow> Inr (map seg_of_chunk (read_bin bs a))))
          else Inr [])"

fun load_segments :: "platform \<Rightarrow> span list \<Rightarrow> string list \<Rightarrow> py_exn + span list" where
  "load_segments pf segs [] = Inr segs"
| "load_segments pf segs (item # items) =
     (case load_item pf item of
        Inl e \<Rightarrow> Inl e
      | Inr new \<Rightarrow> load_segments pf (segs @ new) items)"

definition collect_segments :: "platform \<Rightarrow> string list \<Rightarrow> py_exn + span list" where
  "collect_segments pf file_list =
     (case load_segments pf [] file_list of
        Inl e \<Rightarrow> Inl e
      | Inr segs \<Rightarrow> Inr (merge_segs segs))"

section \<open>The image writer (\<^verbatim>\<open>write_bin\<close>)\<close>

text \<open>What the writer prints: the warning of line 102 on the error stream, the range
  report of line 110 and the final size of line 121 on the output stream.\<close>

datatype message =
    No_segments_warning
  | Range_report int int int
  | Generated_report nat

record written =
  out_file :: "byte list"
  out_stdout :: "message list"
  out_stderr :: "message list"

text \<open>\<^verbatim>\<open>bytes([pad]) * n\<close>: the pad value must be in \<^verbatim>\<open>range(256)\<close>.\<close>

definition pad_bytes :: "int \<Rightarrow> int \<Rightarrow> py_exn + byte list" where
  "pad_bytes pad n =
     (if 0 \<le> pad \<and> pad < 256 then Inr (replicate (nat n) (word_of_int pad))
      else Inl ValueError)"

text \<open>The loop of lines 113 to 118 on the bytes written so far and the cursor
  \<^verbatim>\<open>pos\<close>. When \<^verbatim>\<open>bytes([pad])\<close> raises, the result is the exception alone.\<close>

fun write_loop :: "int \<Rightarrow> byte list \<times> int \<Rightarrow> span list \<Rightarrow> py_exn + byte list \<times> int" where
  "write_loop pad (f, pos) [] = Inr (f, pos)"
| "write_loop pad (f, pos) ((st, ed, data) # segments) =
     (if st > pos then
        (case pad_bytes pad (st - pos) of
           Inl e \<Rightarrow> Inl e
         | Inr p \<Rightarrow> write_loop pad (f @ p @ data, ed) segments)
      else write_loop pad (f @ data, ed) segments)"

definition write_bin :: "span list \<Rightarrow> int \<Rightarrow> int \<Rightarrow> py_exn + written" where
  "write_bin segments base_addr pad =
     (if segments = [] then
        Inr \<lparr>out_file = [], out_stdout = [], out_stderr = [No_segments_warning]\<rparr>
      else
        (let first = span_start (hd segments);
             lst = span_end (last segments);
             start = min first base_addr;
             stop = lst;
             total = stop - start
         in case write_loop pad ([], start) segments of
              Inl e \<Rightarrow> Inl e
            | Inr (f, pos) \<Rightarrow>
                (case (if pos < stop then pad_bytes pad (stop - pos) else Inr []) of
                   Inl e \<Rightarrow> Inl e
                 | Inr tl_pad \<Rightarrow>
                     Inr \<lparr>out_file = f @ tl_pad,
                          out_stdout = [Range_report start stop total,
                                        Generated_report (length (f @ tl_pad))],
                          out_stderr = []\<rparr>)))"

text \<open>\<^verbatim>\<open>main\<close> after argument parsing: collect, then write.\<close>

definition main :: "platform \<Rightarrow> string list \<Rightarrow> int \<Rightarrow> int \<Rightarrow> py_exn + written" where
  "main pf inputs base pad =
     (case collect_segments pf inputs of
        Inl e \<Rightarrow> Inl e
      | Inr segments \<Rightarrow> write_bin segments base pad)"

section \<open>Predicates of the statements\<close>

text \<open>A span is well formed when its byte string has the length \<open>end - start\<close>.\<close>

definition span_valid :: "span \<Rightarrow> bool" where
  "span_valid s \<longleftrightarrow> int (length (span_bytes s)) = span_end s - span_start s"

text \<open>Every span ends strictly before every later span starts.\<close>

definition separated :: "span list \<Rightarrow> bool" where
  "separated xs \<longleftrightarrow> sorted_wrt (\<lambda>a b. span_end a < span_start b) xs"

text \<open>What the merger's output satisfies.\<close>

definition merged_ok :: "span list \<Rightarrow> bool" where
  "merged_ok xs \<longleftrightarrow> list_all span_valid xs \<and> separated xs"

text \<open>The guards of lines 85 and 87 together: the backward-extension branch of one
  iteration is taken.\<close>

definition backward_case :: "span list \<Rightarrow> span \<Rightarrow> bool" where
  "backward_case merged seg \<longleftrightarrow>
     merged \<noteq> [] \<and> span_start seg \<le> span_end (last merged)
       \<and> span_start seg < span_start (last merged)"

text \<open>A span handed back to the merger as an addressed chunk.\<close>

definition chunk_of_span :: "span \<Rightarrow> chunk" where
  "chunk_of_span s = (span_start s, span_bytes s)"

text \<open>A list with every element doubled in place: a list followed by a copy of itself,
  after a stable sort on distinct keys.\<close>

fun twice :: "'a list \<Rightarrow> 'a list" where
  "twice [] = []"
| "twice (x # xs) = x # x # twice xs"

text \<open>
  The bytes that the loop of \<^verbatim>\<open>write_bin\<close> writes from the cursor \<open>pos\<close> with the pad
  byte \<open>p\<close>: for each span the gap up to its start, then its bytes.
\<close>

fun layout :: "byte \<Rightarrow> int \<Rightarrow> span list \<Rightarrow> byte list" where
  "layout p pos [] = []"
| "layout p pos (s # segs) =
     replicate (nat (span_start s - pos)) p @ span_bytes s @ layout p (span_end s) segs"

text \<open>A span covers an address.\<close>

definition covers :: "span \<Rightarrow> int \<Rightarrow> bool" where
  "covers s a \<longleftrightarrow> span_start s \<le> a \<and> a < span_end s"


text \<open>The characters that a field accepted by \<^verbatim>\<open>int(field, 16)\<close> can contain:
  hexadecimal digits, the underscore, the signs, the \<^verbatim>\<open>x\<close> of a \<^verbatim>\<open>0x\<close> prefix, and
  white space.\<close>

definition field_char :: "char \<Rightarrow> bool" where
  "field_char c \<longleftrightarrow>
     is_digit 16 c \<or> c = CHR ''_'' \<or> c = CHR ''+'' \<or> c = CHR ''-'' \<or> c = CHR ''x''
       \<or> c = CHR ''X'' \<or> py_isspace c"






section \<open>The merger: invariants of the fold\<close>

lemma span_valid_le: "span_valid s \<Longrightarrow> span_start s \<le> span_end s"
  unfolding span_valid_def by linarith

lemma merged_ok_Nil: "merged_ok []"
  by (simp add: merged_ok_def separated_def)

lemma merged_ok_snoc:
  "merged_ok (ys @ [l]) \<longleftrightarrow>
     merged_ok ys \<and> span_valid l \<and> (\<forall>y\<in>set ys. span_end y < span_start l)"
  by (auto simp: merged_ok_def separated_def sorted_wrt_append)

lemma merge_step_Nil: "merge_step [] seg = [seg]"
  by (simp add: merge_step_def split: prod.splits)

lemma merge_step_snoc:
  "merge_step (ys @ [(lst, led, ldata)]) (st, ed, data) =
     (if st \<le> led then
        (if st < lst then ys @ [(st, max ed led, slice_to data (lst - st) @ ldata)]
         else if ed > led then ys @ [(lst, max ed led, ldata @ slice_from data (led - st))]
         else ys @ [(lst, led, ldata)])
      else ys @ [(lst, led, ldata), (st, ed, data)])"
  by (simp add: merge_step_def Let_def)

lemma span_valid_extend:
  assumes "span_valid (lst, led, ldata)" "span_valid (st, ed, data)"
    and "lst \<le> st" "st \<le> led" "led < ed"
  shows "span_valid (lst, max ed led, ldata @ slice_from data (led - st))"
  using assms
  by (simp add: span_valid_def span_start_def span_end_def span_bytes_def
      slice_from_def slice_index_def)

lemma merge_step_inv:
  assumes ok: "merged_ok merged" and v: "span_valid seg"
    and le: "merged \<noteq> [] \<Longrightarrow> span_start (last merged) \<le> span_start seg"
  shows "merged_ok (merge_step merged seg) \<and> merge_step merged seg \<noteq> []
     \<and> span_start (last (merge_step merged seg)) \<le> span_start seg"
proof (cases merged rule: rev_cases)
  case Nil
  with v show ?thesis
    by (simp add: merge_step_Nil merged_ok_def separated_def)
next
  case (snoc ys l)
  obtain lst led ldata where l: "l = (lst, led, ldata)" by (cases l)
  obtain st ed data where s: "seg = (st, ed, data)" by (cases seg)
  from le snoc l s have lst_le: "lst \<le> st" by (simp add: span_start_def)
  from ok snoc l have okys: "merged_ok ys" and vl: "span_valid (lst, led, ldata)"
    and sep: "\<forall>y\<in>set ys. span_end y < lst"
    by (simp_all add: merged_ok_snoc span_start_def)
  from vl have lst_led: "lst \<le> led"
    using span_valid_le by (fastforce simp: span_start_def span_end_def)
  show ?thesis
  proof (cases "st \<le> led")
    case False
    then have "\<forall>y\<in>set (ys @ [l]). span_end y < st"
      using sep lst_led l by (auto simp: span_end_def)
    then have "merged_ok ((ys @ [l]) @ [seg])"
      using ok v snoc s unfolding merged_ok_snoc [of "ys @ [l]"]
      by (simp add: span_start_def)
    with False snoc l s show ?thesis
      by (simp add: merge_step_snoc span_start_def)
  next
    case True
    show ?thesis
    proof (cases "led < ed")
      case True
      with \<open>st \<le> led\<close> lst_le okys sep span_valid_extend [OF vl v [unfolded s] lst_le \<open>st \<le> led\<close> True]
      show ?thesis
        by (simp add: snoc l s merge_step_snoc merged_ok_snoc span_start_def)
    next
      case False
      with \<open>st \<le> led\<close> lst_le okys sep vl show ?thesis
        by (simp add: snoc l s merge_step_snoc merged_ok_snoc span_start_def)
    qed
  qed
qed

lemma foldl_merge_inv:
  "merged_ok merged \<Longrightarrow> list_all span_valid segs \<Longrightarrow> sorted (map span_start segs) \<Longrightarrow>
   (merged \<noteq> [] \<Longrightarrow> \<forall>s\<in>set segs. span_start (last merged) \<le> span_start s) \<Longrightarrow>
   merged_ok (foldl merge_step merged segs)"
proof (induction segs arbitrary: merged)
  case Nil
  then show ?case by simp
next
  case (Cons s segs)
  have st: "merged_ok (merge_step merged s) \<and> merge_step merged s \<noteq> []
     \<and> span_start (last (merge_step merged s)) \<le> span_start s"
    using Cons.prems by (intro merge_step_inv) auto
  have "\<forall>t\<in>set segs. span_start (last (merge_step merged s)) \<le> span_start t"
    using st Cons.prems(3) by fastforce
  with st Cons.prems show ?case
    by (simp add: Cons.IH)
qed

lemma span_valid_seg_of_chunk: "span_valid (seg_of_chunk c)"
  by (simp add: span_valid_def seg_of_chunk_def span_start_def span_end_def span_bytes_def)

lemma sort_key_fst_start: "sorted (map span_start (sort_key fst segs))"
proof -
  have "span_start = fst" by (rule ext) (simp add: span_start_def)
  then show ?thesis by (simp add: sorted_sort_key)
qed

lemma merge_segs_ok: "list_all span_valid segs \<Longrightarrow> merged_ok (merge_segs segs)"
  unfolding merge_segs_def
  by (rule foldl_merge_inv) (simp_all add: merged_ok_Nil sort_key_fst_start list_all_iff)

lemma merge_chunks_ok: "merged_ok (merge_chunks cs)"
  unfolding merge_chunks_def
  by (rule merge_segs_ok) (simp add: list_all_iff span_valid_seg_of_chunk)


lemma foldl_prefix_inv:
  assumes v: "list_all span_valid segs" and so: "sorted (map span_start segs)"
  shows "k \<le> length segs \<Longrightarrow>
     merged_ok (foldl merge_step [] (take k segs)) \<and>
     (foldl merge_step [] (take k segs) \<noteq> [] \<longrightarrow>
        (\<forall>s\<in>set (drop k segs). span_start (last (foldl merge_step [] (take k segs))) \<le> span_start s))"
proof (induction k)
  case 0
  then show ?case by (simp add: merged_ok_Nil)
next
  case (Suc k)
  let ?m = "foldl merge_step [] (take k segs)"
  from Suc.prems have k: "k < length segs" by simp
  from Suc.IH k have ok: "merged_ok ?m"
    and le: "?m \<noteq> [] \<Longrightarrow> \<forall>s\<in>set (drop k segs). span_start (last ?m) \<le> span_start s"
    by simp_all
  have vk: "span_valid (segs ! k)"
    using v k by (simp add: list_all_length)
  have mem: "segs ! k \<in> set (drop k segs)"
    using k by (metis Cons_nth_drop_Suc list.set_intros(1))
  have step: "merged_ok (merge_step ?m (segs ! k)) \<and> merge_step ?m (segs ! k) \<noteq> []
     \<and> span_start (last (merge_step ?m (segs ! k))) \<le> span_start (segs ! k)"
    using ok vk le mem by (intro merge_step_inv) auto
  have later: "\<forall>s\<in>set (drop (Suc k) segs). span_start (segs ! k) \<le> span_start s"
  proof
    fix s assume "s \<in> set (drop (Suc k) segs)"
    then obtain j where j: "j < length segs - Suc k" "s = segs ! (Suc k + j)"
      by (auto simp: in_set_conv_nth)
    then have "map span_start segs ! k \<le> map span_start segs ! (Suc k + j)"
      using so k by (intro sorted_nth_mono) auto
    with j k show "span_start (segs ! k) \<le> span_start s" by simp
  qed
  have fold: "foldl merge_step [] (take (Suc k) segs) = merge_step ?m (segs ! k)"
    using k by (simp add: take_Suc_conv_app_nth)
  show ?case unfolding fold using step later by fastforce
qed

lemma no_backward_case:
  assumes v: "list_all span_valid segs" and so: "sorted (map span_start segs)"
    and k: "k < length segs"
  shows "\<not> backward_case (foldl merge_step [] (take k segs)) (segs ! k)"
proof -
  have mem: "segs ! k \<in> set (drop k segs)"
    using k by (metis Cons_nth_drop_Suc list.set_intros(1))
  from foldl_prefix_inv [OF v so, of k] k mem show ?thesis
    by (fastforce simp: backward_case_def)
qed

lemma list_all_valid_sorted: "list_all span_valid (sort_key fst (map seg_of_chunk cs))"
  by (simp add: list_all_iff span_valid_seg_of_chunk)

lemma separated_nth:
  "separated xs \<Longrightarrow> Suc i < length xs \<Longrightarrow> span_end (xs ! i) < span_start (xs ! Suc i)"
  by (simp add: separated_def sorted_wrt_iff_nth_less)

lemma merged_ok_sorted: "merged_ok xs \<Longrightarrow> sorted (map span_start xs)"
proof (induction xs)
  case Nil
  then show ?case by simp
next
  case (Cons x xs)
  then have "merged_ok xs" and "\<forall>y\<in>set xs. span_end x < span_start y" and "span_valid x"
    by (simp_all add: merged_ok_def separated_def)
  with Cons.IH span_valid_le [of x] show ?case by fastforce
qed

section \<open>The merger: a merged list merged with itself\<close>

lemma seg_of_chunk_of_span: "span_valid s \<Longrightarrow> seg_of_chunk (chunk_of_span s) = s"
  by (cases s) (simp add: seg_of_chunk_def chunk_of_span_def span_valid_def
      span_start_def span_end_def span_bytes_def)

lemma map_seg_of_chunk_of_span:
  "list_all span_valid xs \<Longrightarrow> map seg_of_chunk (map chunk_of_span xs) = xs"
  by (induction xs) (simp_all add: seg_of_chunk_of_span)

lemma mset_twice: "mset (twice xs) = mset xs + mset xs"
  by (induction xs) simp_all

lemma set_twice: "set (twice xs) = set xs"
  by (induction xs) auto

lemma filter_twice: "filter P (twice xs) = twice (filter P xs)"
  by (induction xs) simp_all

lemma sorted_twice: "sorted (map f xs) \<Longrightarrow> sorted (map f (twice xs))"
  by (induction xs) (auto simp: set_twice)

lemma filter_key_distinct:
  "distinct (map f xs) \<Longrightarrow> k \<in> set xs \<Longrightarrow> filter (\<lambda>x. f k = f x) xs = [k]"
proof (induction xs)
  case Nil
  then show ?case by simp
next
  case (Cons x xs)
  show ?case
  proof (cases "k = x")
    case True
    with Cons.prems have "\<forall>y\<in>set xs. f x \<noteq> f y" by auto
    then have "filter (\<lambda>y. f x = f y) xs = []" by (simp add: filter_empty_conv)
    with True show ?thesis by simp
  next
    case False
    with Cons.prems have "k \<in> set xs" "f k \<noteq> f x" by (auto simp: image_iff)
    with Cons show ?thesis by simp
  qed
qed

lemma sort_key_twice:
  assumes "sorted (map f xs)" "distinct (map f xs)"
  shows "sort_key f (xs @ xs) = twice xs"
proof (rule properties_for_sort_key)
  show "mset (twice xs) = mset (xs @ xs)" by (simp add: mset_twice)
  show "sorted (map f (twice xs))" using assms(1) by (rule sorted_twice)
  fix k assume "k \<in> set (twice xs)"
  then have k: "k \<in> set xs" by (simp add: set_twice)
  show "filter (\<lambda>x. f k = f x) (twice xs) = filter (\<lambda>x. f k = f x) (xs @ xs)"
    by (simp add: filter_twice filter_key_distinct [OF assms(2) k])
qed

lemma merged_ok_distinct: "merged_ok xs \<Longrightarrow> distinct (map span_start xs)"
proof (induction xs)
  case Nil
  then show ?case by simp
next
  case (Cons x xs)
  then have "merged_ok xs" and "\<forall>y\<in>set xs. span_end x < span_start y" and "span_valid x"
    by (simp_all add: merged_ok_def separated_def)
  with Cons.IH span_valid_le [of x] show ?case by fastforce
qed

lemma merge_step_same:
  assumes "span_valid x"
  shows "merge_step (acc @ [x]) x = acc @ [x]"
proof -
  obtain st ed data where x: "x = (st, ed, data)" by (cases x)
  with assms have "st \<le> ed" using span_valid_le [of x] by (simp add: span_start_def span_end_def)
  then show ?thesis by (simp add: x merge_step_snoc)
qed

lemma merge_step_gap:
  assumes "acc \<noteq> [] \<Longrightarrow> span_end (last acc) < span_start x"
  shows "merge_step acc x = acc @ [x]"
proof (cases acc rule: rev_cases)
  case Nil
  then show ?thesis by (simp add: merge_step_Nil)
next
  case (snoc ys l)
  obtain lst led ldata where l: "l = (lst, led, ldata)" by (cases l)
  obtain st ed data where x: "x = (st, ed, data)" by (cases x)
  from assms snoc l x have "led < st" by (simp add: span_start_def span_end_def)
  then show ?thesis by (simp add: snoc l x merge_step_snoc)
qed

lemma foldl_merge_twice:
  "merged_ok (acc @ xs) \<Longrightarrow> foldl merge_step acc (twice xs) = acc @ xs"
proof (induction xs arbitrary: acc)
  case Nil
  then show ?case by simp
next
  case (Cons x xs)
  from Cons.prems have ok: "merged_ok ((acc @ [x]) @ xs)" by simp
  from Cons.prems have okx: "merged_ok (acc @ [x])"
    by (simp add: merged_ok_def separated_def sorted_wrt_append)
  then have vx: "span_valid x" and gap: "acc \<noteq> [] \<Longrightarrow> span_end (last acc) < span_start x"
    by (simp_all add: merged_ok_snoc)
  have "foldl merge_step acc (twice (x # xs)) =
        foldl merge_step (merge_step (merge_step acc x) x) (twice xs)" by simp
  also have "merge_step acc x = acc @ [x]" using gap by (rule merge_step_gap)
  also have "merge_step (acc @ [x]) x = acc @ [x]" using vx by (rule merge_step_same)
  also have "foldl merge_step (acc @ [x]) (twice xs) = (acc @ [x]) @ xs"
    using ok by (rule Cons.IH)
  finally show ?case by simp
qed

lemma merge_segs_twice:
  assumes "merged_ok xs"
  shows "merge_segs (xs @ xs) = xs"
proof -
  have "span_start = fst" by (rule ext) (simp add: span_start_def)
  with merged_ok_sorted [OF assms] merged_ok_distinct [OF assms]
  have "sort_key fst (xs @ xs) = twice xs"
    by (intro sort_key_twice) simp_all
  then show ?thesis
    using foldl_merge_twice [of "[]" xs] assms by (simp add: merge_segs_def)
qed

lemma merge_chunks_twice:
  assumes "merged_ok xs"
  shows "merge_chunks (map chunk_of_span xs @ map chunk_of_span xs) = xs"
proof -
  from assms have "list_all span_valid xs" by (simp add: merged_ok_def)
  then have "map seg_of_chunk (map chunk_of_span xs @ map chunk_of_span xs) = xs @ xs"
    using map_seg_of_chunk_of_span [of xs] by simp
  then show ?thesis
    unfolding merge_chunks_def using merge_segs_twice [OF assms] by simp
qed

section \<open>Collected segments are well formed\<close>

lemma load_item_valid: "load_item pf item = Inr new \<Longrightarrow> list_all span_valid new"
  by (auto simp: load_item_def list_all_iff span_valid_seg_of_chunk
      split: sum.splits prod.splits if_splits option.splits)

lemma load_segments_valid:
  "list_all span_valid segs \<Longrightarrow> load_segments pf segs items = Inr out \<Longrightarrow>
   list_all span_valid out"
proof (induction items arbitrary: segs)
  case Nil
  then show ?case by simp
next
  case (Cons item items)
  from Cons.prems(2) obtain new where new: "load_item pf item = Inr new"
    and rest: "load_segments pf (segs @ new) items = Inr out"
    by (auto split: sum.splits)
  from Cons.prems(1) load_item_valid [OF new] have "list_all span_valid (segs @ new)"
    by simp
  then show ?case using rest by (rule Cons.IH)
qed

lemma collect_segments_ok: "collect_segments pf file_list = Inr out \<Longrightarrow> merged_ok out"
proof -
  assume "collect_segments pf file_list = Inr out"
  then obtain segs where l: "load_segments pf [] file_list = Inr segs"
    and out: "out = merge_segs segs"
    by (auto simp: collect_segments_def split: sum.splits)
  from load_segments_valid [OF _ l] have "list_all span_valid segs" by simp
  then show ?thesis unfolding out by (rule merge_segs_ok)
qed

lemma merged_ok_adjacent:
  assumes "merged_ok xs" "Suc i < length xs"
  shows "span_end (xs ! i) \<le> span_start (xs ! Suc i) \<and> span_end (xs ! i) \<noteq> span_start (xs ! Suc i)"
  using separated_nth [of xs i] assms by (simp add: merged_ok_def)

section \<open>Claims about the merger\<close>

text \<open>
  C1. For every list of addressed chunks, the spans that the merger returns are sorted
  ascending by start address, and each span ends before the next one starts: the end of
  span \<open>i\<close> is at most the start of span \<open>i + 1\<close>, and it is not equal to it either
  (no two spans overlap or touch). The same holds of every list that
  \<^verbatim>\<open>collect_segments\<close> returns for a list of files.
\<close>

theorem merged_spans_sorted_disjoint:
  "sorted (map span_start (merge_chunks cs)) \<and>
   (\<forall>i. Suc i < length (merge_chunks cs) \<longrightarrow>
      span_end (merge_chunks cs ! i) \<le> span_start (merge_chunks cs ! Suc i) \<and>
      span_end (merge_chunks cs ! i) \<noteq> span_start (merge_chunks cs ! Suc i)) \<and>
   (collect_segments pf file_list = Inr out \<longrightarrow>
      sorted (map span_start out) \<and>
      (\<forall>i. Suc i < length out \<longrightarrow>
         span_end (out ! i) \<le> span_start (out ! Suc i) \<and>
         span_end (out ! i) \<noteq> span_start (out ! Suc i)))"
  using merged_ok_sorted [OF merge_chunks_ok, of cs]
    merged_ok_adjacent [OF merge_chunks_ok, of _ cs]
    merged_ok_sorted [OF collect_segments_ok, of pf file_list out]
    merged_ok_adjacent [OF collect_segments_ok, of pf file_list out]
  by blast

theorem merged_spans_sorted_disjoint_witness:
  "Suc 0 < length (merge_chunks [(32, [1, 2]), (16, [3]), (17, [4])]) \<and>
   span_end (merge_chunks [(32, [1, 2]), (16, [3]), (17, [4])] ! 0)
     \<le> span_start (merge_chunks [(32, [1, 2]), (16, [3]), (17, [4])] ! Suc 0) \<and>
   span_end (merge_chunks [(32, [1, 2]), (16, [3]), (17, [4])] ! 0)
     \<noteq> span_start (merge_chunks [(32, [1, 2]), (16, [3]), (17, [4])] ! Suc 0) \<and>
   collect_segments
     \<lparr>path_exists = (\<lambda>p. True), path_suffix = (\<lambda>p. ''.bin''),
      read_bytes = (\<lambda>p. Some [1, 2])\<rparr>
     [''b.bin@32'', ''a.bin@16''] = Inr [(16, 18, [1, 2]), (32, 34, [1, 2])] \<and>
   Suc 0 < length ([(16, 18, [1, 2]), (32, 34, [1, 2])] :: span list) \<and>
   span_end (([(16, 18, [1, 2]), (32, 34, [1, 2])] :: span list) ! 0)
     \<le> span_start (([(16, 18, [1, 2]), (32, 34, [1, 2])] :: span list) ! Suc 0)"
proof -
  let ?cs = "[(32, [1, 2]), (16, [3]), (17, [4])] :: chunk list"
  let ?pf = "\<lparr>path_exists = (\<lambda>p. True), path_suffix = (\<lambda>p. ''.bin''),
      read_bytes = (\<lambda>p. Some [1, 2 :: byte])\<rparr>"
  let ?out = "[(16, 18, [1, 2]), (32, 34, [1, 2])] :: span list"
  have h1: "Suc 0 < length (merge_chunks ?cs)" by code_simp
  have h2: "collect_segments ?pf [''b.bin@32'', ''a.bin@16''] = Inr ?out" by code_simp
  have h3: "Suc 0 < length ?out" by simp
  from merged_spans_sorted_disjoint [of ?cs ?pf "[''b.bin@32'', ''a.bin@16'']" ?out] h1 h2 h3
  show ?thesis by blast
qed

text \<open>
  C2 as stated: the two overlapping chunks \<open>(0x100, 32 bytes 0xAA)\<close> and
  \<open>(0x110, 32 bytes 0xBB)\<close> merge into one span in which the bytes at the addresses
  \<open>[0x110, 0x120)\<close> are 0xBB. In the code they are not: the forward-extension branch keeps
  the bytes of the span already there and appends \<^verbatim>\<open>data[led-st:]\<close> only, so the
  sixteen bytes of the overlap, read with the slice \<open>[0x110 - 0x100 : 0x120 - 0x100]\<close>,
  are 0xAA.
\<close>

theorem overlap_bytes_counterexample:
  "py_slice (span_bytes (hd (merge_chunks [(0x100, replicate 32 0xAA), (0x110, replicate 32 0xBB)])))
     (0x110 - 0x100) (0x120 - 0x100) \<noteq> replicate 16 0xBB"
  by code_simp

text \<open>
  C2, amended. The two chunks merge into the single span \<open>[0x100, 0x130)\<close> whose bytes are
  the 32 bytes 0xAA of the first chunk, at \<open>[0x100, 0x120)\<close>, followed by the last 16
  bytes 0xBB of the second chunk, at \<open>[0x120, 0x130)\<close>: the overlap keeps the first
  chunk's bytes.
\<close>

theorem overlap_keeps_first_chunk:
  "merge_chunks [(0x100, replicate 32 0xAA), (0x110, replicate 32 0xBB)] =
     [(0x100, 0x130, replicate 32 0xAA @ replicate 16 0xBB)]"
  by code_simp

text \<open>
  C3. For every list of addressed chunks, every span of the merger's output has a byte
  string of length \<open>end - start\<close>; and at no iteration of the fold over the sorted list
  is the backward-extension branch taken (iteration \<open>k\<close> starts from the list merged out
  of the first \<open>k\<close> sorted segments and handles segment \<open>k\<close>). The length property also
  holds of every list that \<^verbatim>\<open>collect_segments\<close> returns.
\<close>

theorem merged_spans_length:
  "(\<forall>s\<in>set (merge_chunks cs). int (length (span_bytes s)) = span_end s - span_start s) \<and>
   (\<forall>k<length cs.
      \<not> backward_case (foldl merge_step [] (take k (sort_key fst (map seg_of_chunk cs))))
           (sort_key fst (map seg_of_chunk cs) ! k)) \<and>
   (collect_segments pf file_list = Inr out \<longrightarrow>
      (\<forall>s\<in>set out. int (length (span_bytes s)) = span_end s - span_start s))"
proof -
  have "merged_ok (merge_chunks cs)" by (rule merge_chunks_ok)
  then have a: "\<forall>s\<in>set (merge_chunks cs). int (length (span_bytes s)) = span_end s - span_start s"
    by (simp add: merged_ok_def list_all_iff span_valid_def)
  have b: "\<not> backward_case (foldl merge_step [] (take k (sort_key fst (map seg_of_chunk cs))))
           (sort_key fst (map seg_of_chunk cs) ! k)" if "k < length cs" for k
    using that by (intro no_backward_case list_all_valid_sorted sort_key_fst_start) simp
  have c: "\<forall>s\<in>set out. int (length (span_bytes s)) = span_end s - span_start s"
    if "collect_segments pf file_list = Inr out"
    using collect_segments_ok [OF that] by (simp add: merged_ok_def list_all_iff span_valid_def)
  from a b c show ?thesis by blast
qed

theorem merged_spans_length_witness:
  "(16, 18, [3, 4]) \<in> set (merge_chunks [(32, [1, 2]), (16, [3]), (17, [4])]) \<and>
   int (length (span_bytes (16, 18, [3, 4]))) = span_end (16, 18, [3, 4]) - span_start (16, 18, [3, 4]) \<and>
   (2 :: nat) < length ([(32, [1, 2]), (16, [3]), (17, [4])] :: chunk list) \<and>
   \<not> backward_case
       (foldl merge_step [] (take 2 (sort_key fst (map seg_of_chunk [(32, [1, 2]), (16, [3]), (17, [4])]))))
       (sort_key fst (map seg_of_chunk [(32, [1, 2]), (16, [3]), (17, [4])]) ! 2) \<and>
   collect_segments
     \<lparr>path_exists = (\<lambda>p. True), path_suffix = (\<lambda>p. ''.bin''),
      read_bytes = (\<lambda>p. Some [1, 2])\<rparr>
     [''b.bin@17'', ''a.bin@16''] = Inr [(16, 19, [1, 2, 2])] \<and>
   (16, 19, [1, 2, 2]) \<in> set ([(16, 19, [1, 2, 2])] :: span list) \<and>
   int (length (span_bytes (16, 19, [1, 2, 2]))) = span_end (16, 19, [1, 2, 2]) - span_start (16, 19, [1, 2, 2])"
proof -
  let ?cs = "[(32, [1, 2]), (16, [3]), (17, [4])] :: chunk list"
  let ?pf = "\<lparr>path_exists = (\<lambda>p. True), path_suffix = (\<lambda>p. ''.bin''),
      read_bytes = (\<lambda>p. Some [1, 2 :: byte])\<rparr>"
  let ?out = "[(16, 19, [1, 2, 2])] :: span list"
  have h1: "(16, 18, [3, 4]) \<in> set (merge_chunks ?cs)" by code_simp
  have h2: "(2 :: nat) < length ?cs" by simp
  have h3: "collect_segments ?pf [''b.bin@17'', ''a.bin@16''] = Inr ?out" by code_simp
  have h4: "(16, 19, [1, 2, 2]) \<in> set ?out" by simp
  from merged_spans_length [of ?cs ?pf "[''b.bin@17'', ''a.bin@16'']" ?out] h1 h2 h3 h4
  show ?thesis by blast
qed

text \<open>
  C4. Merging an already-merged span list with itself is the identity: when the spans of
  a list the merger produced (or of any list with the merger's output properties: every
  span well formed, every span ending before the later ones start) are fed to the merger
  as chunks, followed by a second copy of themselves, the result is the list itself. The
  list may also be empty.
\<close>

theorem merge_with_itself:
  "(merged_ok xs \<longrightarrow>
      merge_chunks (map chunk_of_span xs @ map chunk_of_span xs) = xs) \<and>
   merge_chunks (map chunk_of_span (merge_chunks cs) @ map chunk_of_span (merge_chunks cs))
     = merge_chunks cs"
  using merge_chunks_twice [of xs] merge_chunks_twice [OF merge_chunks_ok, of cs]
  by blast

theorem merge_with_itself_witness:
  "merged_ok [(16, 18, [3, 4]), (32, 34, [1, 2])] \<and>
   merge_chunks (map chunk_of_span [(16, 18, [3, 4]), (32, 34, [1, 2])]
                 @ map chunk_of_span [(16, 18, [3, 4]), (32, 34, [1, 2])])
     = [(16, 18, [3, 4]), (32, 34, [1, 2])]"
proof -
  have h: "merged_ok [(16, 18, [3, 4]), (32, 34, [1, 2])]" by code_simp
  from merge_with_itself [of "[(16, 18, [3, 4]), (32, 34, [1, 2])]"] h
  show ?thesis by blast
qed

section \<open>The writer: what the loop lays out\<close>

lemma write_loop_layout:
  assumes "0 \<le> pad" "pad < 256"
  shows "write_loop pad (f, pos) segs =
     Inr (f @ layout (word_of_int pad) pos segs, if segs = [] then pos else span_end (last segs))"
proof (induction segs arbitrary: f pos)
  case Nil
  then show ?case by simp
next
  case (Cons s segs)
  obtain st ed data where s: "s = (st, ed, data)" by (cases s)
  show ?case
    using assms
    by (simp add: s Cons.IH pad_bytes_def span_start_def span_end_def span_bytes_def)
qed

lemma merged_ok_Cons:
  "merged_ok (s # segs) \<longleftrightarrow>
     span_valid s \<and> merged_ok segs \<and> (\<forall>y\<in>set segs. span_end s < span_start y)"
  by (auto simp: merged_ok_def separated_def)

lemma sep_hd:
  "\<forall>y\<in>set segs. e < span_start y \<Longrightarrow> segs \<noteq> [] \<Longrightarrow> e \<le> span_start (hd segs)"
  by (cases segs) auto

lemma layout_length:
  "merged_ok segs \<Longrightarrow> segs \<noteq> [] \<Longrightarrow> pos \<le> span_start (hd segs) \<Longrightarrow>
   int (length (layout p pos segs)) = span_end (last segs) - pos"
proof (induction segs arbitrary: pos)
  case Nil
  then show ?case by simp
next
  case (Cons s segs)
  from Cons.prems have v: "span_valid s" and ok: "merged_ok segs"
    and sep: "\<forall>y\<in>set segs. span_end s < span_start y" and pos: "pos \<le> span_start s"
    by (simp_all add: merged_ok_Cons)
  from v have len: "int (length (span_bytes s)) = span_end s - span_start s"
    by (simp add: span_valid_def)
  show ?case
  proof (cases "segs = []")
    case True
    with len pos show ?thesis by simp
  next
    case False
    with sep have "span_end s \<le> span_start (hd segs)" by (intro sep_hd)
    from Cons.IH [OF ok False this] len pos False show ?thesis by simp
  qed
qed

lemma layout_span:
  "merged_ok segs \<Longrightarrow> pos \<le> span_start (hd segs) \<Longrightarrow> s \<in> set segs \<Longrightarrow>
   take (length (span_bytes s)) (drop (nat (span_start s - pos)) (layout p pos segs)) = span_bytes s"
proof (induction segs arbitrary: pos)
  case Nil
  then show ?case by simp
next
  case (Cons x segs)
  from Cons.prems have v: "span_valid x" and ok: "merged_ok segs"
    and sep: "\<forall>y\<in>set segs. span_end x < span_start y" and pos: "pos \<le> span_start x"
    by (simp_all add: merged_ok_Cons)
  from v have len: "int (length (span_bytes x)) = span_end x - span_start x"
    by (simp add: span_valid_def)
  show ?case
  proof (cases "s = x")
    case True
    then show ?thesis by simp
  next
    case False
    with Cons.prems have mem: "s \<in> set segs" by simp
    then have ne: "segs \<noteq> []" by auto
    with sep have le: "span_end x \<le> span_start (hd segs)" by (intro sep_hd)
    from sep mem have lt: "span_end x < span_start s" by simp
    have split: "nat (span_start s - pos) =
        nat (span_start x - pos) + (length (span_bytes x) + nat (span_start s - span_end x))"
      using len pos lt by linarith
    from Cons.IH [OF ok le mem] show ?thesis
      unfolding layout.simps split by (simp add: drop_append)
  qed
qed

lemma layout_pad:
  "merged_ok segs \<Longrightarrow> segs \<noteq> [] \<Longrightarrow> pos \<le> span_start (hd segs) \<Longrightarrow>
   i < length (layout p pos segs) \<Longrightarrow> \<forall>s\<in>set segs. \<not> covers s (pos + int i) \<Longrightarrow>
   layout p pos segs ! i = p"
proof (induction segs arbitrary: pos i)
  case Nil
  then show ?case by simp
next
  case (Cons x segs)
  from Cons.prems have v: "span_valid x" and ok: "merged_ok segs"
    and sep: "\<forall>y\<in>set segs. span_end x < span_start y" and pos: "pos \<le> span_start x"
    by (simp_all add: merged_ok_Cons)
  from v have len: "int (length (span_bytes x)) = span_end x - span_start x"
    by (simp add: span_valid_def)
  from Cons.prems(5) have nx: "\<not> covers x (pos + int i)"
    and nrest: "\<forall>s\<in>set segs. \<not> covers s (pos + int i)" by simp_all
  show ?case
  proof (cases "int i < span_start x - pos")
    case True
    then have "i < nat (span_start x - pos)" by linarith
    then show ?thesis by (simp add: nth_append)
  next
    case False
    with nx have ge: "span_end x \<le> pos + int i" by (simp add: covers_def)
    define j where "j = nat (pos + int i - span_end x)"
    have i: "i = nat (span_start x - pos) + (length (span_bytes x) + j)"
      using ge len pos j_def by linarith
    have addr: "span_end x + int j = pos + int i" using ge j_def by simp
    have lay: "layout p pos (x # segs) ! i = layout p (span_end x) segs ! j"
      unfolding layout.simps i by (simp add: nth_append)
    have jlen: "j < length (layout p (span_end x) segs)"
      using Cons.prems(4) unfolding layout.simps i by simp
    then have ne: "segs \<noteq> []" by auto
    with sep have le: "span_end x \<le> span_start (hd segs)" by (intro sep_hd)
    from Cons.IH [OF ok ne le jlen] nrest addr lay show ?thesis by simp
  qed
qed

lemma write_bin_layout:
  assumes "segments \<noteq> []" "0 \<le> pad" "pad < 256"
  shows "write_bin segments base_addr pad =
     Inr \<lparr>out_file = layout (word_of_int pad) (min (span_start (hd segments)) base_addr) segments,
          out_stdout =
            [Range_report (min (span_start (hd segments)) base_addr) (span_end (last segments))
               (span_end (last segments) - min (span_start (hd segments)) base_addr),
             Generated_report
               (length (layout (word_of_int pad) (min (span_start (hd segments)) base_addr) segments))],
          out_stderr = []\<rparr>"
  using assms by (simp add: write_bin_def Let_def write_loop_layout)

lemma merged_ok_hd_le_last:
  "merged_ok segs \<Longrightarrow> segs \<noteq> [] \<Longrightarrow> span_start (hd segs) \<le> span_end (last segs)"
proof (induction segs)
  case Nil
  then show ?case by simp
next
  case (Cons x segs)
  then have v: "span_valid x" and ok: "merged_ok segs"
    and sep: "\<forall>y\<in>set segs. span_end x < span_start y"
    by (simp_all add: merged_ok_Cons)
  show ?case
  proof (cases "segs = []")
    case True
    with span_valid_le [OF v] show ?thesis by simp
  next
    case False
    from sep_hd [OF sep False] Cons.IH [OF ok False] span_valid_le [OF v] False
    show ?thesis by simp
  qed
qed

lemma slice_take_drop:
  assumes "0 \<le> a" "a \<le> b" "b \<le> int (length xs)"
  shows "py_slice xs a b = take (nat (b - a)) (drop (nat a) xs)"
proof -
  have "slice_index (length xs) a = nat a" "slice_index (length xs) b = nat b"
    using assms by (simp_all add: slice_index_def)
  moreover have "nat b - nat a = nat (b - a)" using assms by linarith
  ultimately show ?thesis by (simp add: py_slice_def)
qed

lemma merged_ok_bounds:
  "merged_ok segs \<Longrightarrow> s \<in> set segs \<Longrightarrow>
   span_start (hd segs) \<le> span_start s \<and> span_end s \<le> span_end (last segs)"
proof (induction segs)
  case Nil
  then show ?case by simp
next
  case (Cons x segs)
  then have v: "span_valid x" and ok: "merged_ok segs"
    and sep: "\<forall>y\<in>set segs. span_end x < span_start y"
    by (simp_all add: merged_ok_Cons)
  show ?case
  proof (cases "s = x")
    case True
    show ?thesis
    proof (cases "segs = []")
      case True
      with \<open>s = x\<close> show ?thesis by simp
    next
      case False
      from sep_hd [OF sep False] merged_ok_hd_le_last [OF ok False] False \<open>s = x\<close>
      show ?thesis by simp
    qed
  next
    case False
    with Cons.prems have mem: "s \<in> set segs" by simp
    then have ne: "segs \<noteq> []" by auto
    from Cons.IH [OF ok mem] sep mem span_valid_le [OF v] ne show ?thesis
      by fastforce
  qed
qed

lemma layout_slice:
  assumes ok: "merged_ok segs" and pos: "pos \<le> span_start (hd segs)" and mem: "s \<in> set segs"
  shows "py_slice (layout p pos segs) (span_start s - pos) (span_end s - pos) = span_bytes s"
proof -
  from mem have ne: "segs \<noteq> []" by auto
  from ok mem have v: "span_valid s" by (simp add: merged_ok_def list_all_iff)
  then have len: "int (length (span_bytes s)) = span_end s - span_start s"
    by (simp add: span_valid_def)
  from merged_ok_bounds [OF ok mem] pos layout_length [OF ok ne pos, of p] len
  have a: "0 \<le> span_start s - pos" and b: "span_start s - pos \<le> span_end s - pos"
    and c: "span_end s - pos \<le> int (length (layout p pos segs))"
    by linarith+
  have "nat (span_end s - pos - (span_start s - pos)) = length (span_bytes s)"
    using len by linarith
  with slice_take_drop [OF a b c] layout_span [OF ok pos mem, of p] show ?thesis by simp
qed

section \<open>Claims about the writer\<close>

text \<open>
  C5. For every non-empty merged span list (every span well formed, every span ending
  before the later ones start), every base address and every pad byte, the writer returns
  normally with a file of length \<open>last.end - min(first.start, base_address)\<close>; for
  each span the bytes at the offsets \<open>[span.start - start, span.end - start)\<close> of the
  file are that span's bytes; and every position of the file that no span covers holds
  the pad byte.
\<close>

theorem write_bin_image:
  assumes "merged_ok segments" "segments \<noteq> []" "0 \<le> pad" "pad < 256"
  shows "case write_bin segments base_addr pad of
           Inl e \<Rightarrow> False
         | Inr w \<Rightarrow>
             int (length (out_file w)) =
               span_end (last segments) - min (span_start (hd segments)) base_addr \<and>
             (\<forall>s\<in>set segments.
                py_slice (out_file w)
                  (span_start s - min (span_start (hd segments)) base_addr)
                  (span_end s - min (span_start (hd segments)) base_addr) = span_bytes s) \<and>
             (\<forall>i<length (out_file w).
                (\<forall>s\<in>set segments.
                   \<not> (span_start s \<le> min (span_start (hd segments)) base_addr + int i \<and>
                      min (span_start (hd segments)) base_addr + int i < span_end s)) \<longrightarrow>
                out_file w ! i = word_of_int pad)"
proof -
  let ?start = "min (span_start (hd segments)) base_addr"
  let ?buf = "layout (word_of_int pad) ?start segments"
  have pos: "?start \<le> span_start (hd segments)" by simp
  have a: "int (length ?buf) = span_end (last segments) - ?start"
    using assms(1,2) pos by (rule layout_length)
  have b: "\<forall>s\<in>set segments. py_slice ?buf (span_start s - ?start) (span_end s - ?start) = span_bytes s"
    using layout_slice [OF assms(1) pos] by blast
  have c: "?buf ! i = word_of_int pad"
    if "i < length ?buf"
      and "\<forall>s\<in>set segments. \<not> (span_start s \<le> ?start + int i \<and> ?start + int i < span_end s)"
    for i
    using assms(1,2) pos that(1)
  proof (rule layout_pad)
    show "\<forall>s\<in>set segments. \<not> covers s (?start + int i)"
      using that(2) by (simp add: covers_def)
  qed
  from a b c show ?thesis
    unfolding write_bin_layout [OF assms(2,3,4)] by simp
qed

theorem write_bin_image_witness:
  "merged_ok [(3, 5, [1, 2]), (7, 8, [9])] \<and> [(3, 5, [1, 2]), (7, 8, [9])] \<noteq> ([] :: span list) \<and>
   (0 :: int) \<le> 255 \<and> (255 :: int) < 256 \<and>
   write_bin [(3, 5, [1, 2]), (7, 8, [9])] 0 255 =
     Inr \<lparr>out_file = [255, 255, 255, 1, 2, 255, 255, 9],
          out_stdout = [Range_report 0 8 8, Generated_report 8], out_stderr = []\<rparr> \<and>
   (3, 5, [1, 2]) \<in> set ([(3, 5, [1, 2]), (7, 8, [9])] :: span list) \<and>
   py_slice [255, 255, 255, 1, 2, 255, 255, 9 :: byte] (3 - 0) (5 - 0) = [1, 2] \<and>
   (5 :: nat) < length [255, 255, 255, 1, 2, 255, 255, 9 :: byte] \<and>
   [255, 255, 255, 1, 2, 255, 255, 9 :: byte] ! 5 = word_of_int 255"
proof -
  let ?segs = "[(3, 5, [1, 2]), (7, 8, [9])] :: span list"
  have h1: "merged_ok ?segs" by code_simp
  have h2: "?segs \<noteq> []" by simp
  have w: "write_bin ?segs 0 255 =
     Inr \<lparr>out_file = [255, 255, 255, 1, 2, 255, 255, 9],
          out_stdout = [Range_report 0 8 8, Generated_report 8], out_stderr = []\<rparr>"
    by code_simp
  have s: "py_slice [255, 255, 255, 1, 2, 255, 255, 9 :: byte] (3 - 0) (5 - 0) = [1, 2]"
    by code_simp
  from write_bin_image [OF h1 h2, of 255 0] w s h1 show ?thesis by simp
qed

text \<open>
  C8 as stated: when the base address is past all data, the writer produces an error or
  an explicit empty output. In the code it does neither: with the one span
  \<open>[0, 1)\<close> and the base address 5 the file holds the span's byte, nothing is written
  to the error stream, and the reported range is \<open>0 .. 1\<close>.
\<close>

theorem base_past_data_counterexample:
  "span_end (last [(0, 1, [7])]) < 5 \<and>
   write_bin [(0, 1, [7])] 5 255 =
     Inr \<lparr>out_file = [7], out_stdout = [Range_report 0 1 1, Generated_report 1],
          out_stderr = []\<rparr>"
  by code_simp

text \<open>
  C8, amended. For every non-empty merged span list and every base address past all data
  (\<open>base_address > last.end\<close>), \<open>start = min(first.start, base_address)\<close> is
  \<open>first.start\<close>: the writer does exactly what it does for the base address
  \<open>first.start\<close>, and with a pad byte it returns normally, without a warning, a file of
  the non-negative length \<open>last.end - first.start\<close> that holds every span's bytes at
  the span's offset. No negative size arises.
\<close>

theorem base_past_data:
  assumes "merged_ok segments" "segments \<noteq> []" "span_end (last segments) < base_addr"
  shows "write_bin segments base_addr pad = write_bin segments (span_start (hd segments)) pad \<and>
     (0 \<le> pad \<and> pad < 256 \<longrightarrow>
        (case write_bin segments base_addr pad of
           Inl e \<Rightarrow> False
         | Inr w \<Rightarrow>
             int (length (out_file w)) = span_end (last segments) - span_start (hd segments) \<and>
             0 \<le> span_end (last segments) - span_start (hd segments) \<and>
             out_stderr w = [] \<and>
             (\<forall>s\<in>set segments.
                py_slice (out_file w) (span_start s - span_start (hd segments))
                  (span_end s - span_start (hd segments)) = span_bytes s)))"
proof -
  from merged_ok_hd_le_last [OF assms(1,2)] assms(3)
  have m: "min (span_start (hd segments)) base_addr = span_start (hd segments)" 
    and nn: "0 \<le> span_end (last segments) - span_start (hd segments)" by simp_all
  have eq: "write_bin segments base_addr pad = write_bin segments (span_start (hd segments)) pad"
    unfolding write_bin_def Let_def m min.idem by (rule refl)
  have "case write_bin segments base_addr pad of
           Inl e \<Rightarrow> False
         | Inr w \<Rightarrow>
             int (length (out_file w)) = span_end (last segments) - span_start (hd segments) \<and>
             0 \<le> span_end (last segments) - span_start (hd segments) \<and>
             out_stderr w = [] \<and>
             (\<forall>s\<in>set segments.
                py_slice (out_file w) (span_start s - span_start (hd segments))
                  (span_end s - span_start (hd segments)) = span_bytes s)"
    if p: "0 \<le> pad" "pad < 256"
  proof -
    have pos: "span_start (hd segments) \<le> span_start (hd segments)" by simp
    show ?thesis
      unfolding write_bin_layout [OF assms(2) p] m
      using layout_length [OF assms(1,2) pos] layout_slice [OF assms(1) pos] nn
      by simp
  qed
  with eq show ?thesis by blast
qed

theorem base_past_data_witness:
  "merged_ok [(3, 5, [1, 2]), (7, 8, [9])] \<and> [(3, 5, [1, 2]), (7, 8, [9])] \<noteq> ([] :: span list) \<and>
   span_end (last [(3, 5, [1, 2]), (7, 8, [9])]) < 100 \<and>
   (0 :: int) \<le> 255 \<and> (255 :: int) < 256 \<and>
   write_bin [(3, 5, [1, 2]), (7, 8, [9])] 100 255 =
     Inr \<lparr>out_file = [1, 2, 255, 255, 9],
          out_stdout = [Range_report 3 8 5, Generated_report 5], out_stderr = []\<rparr> \<and>
   write_bin [(3, 5, [1, 2]), (7, 8, [9])] 100 255 =
     write_bin [(3, 5, [1, 2]), (7, 8, [9])] (span_start (hd [(3, 5, [1, 2]), (7, 8, [9])])) 255 \<and>
   (7, 8, [9]) \<in> set ([(3, 5, [1, 2]), (7, 8, [9])] :: span list) \<and>
   py_slice [1, 2, 255, 255, 9 :: byte] (7 - 3) (8 - 3) = [9]"
proof -
  let ?segs = "[(3, 5, [1, 2]), (7, 8, [9])] :: span list"
  have h1: "merged_ok ?segs" by code_simp
  have h2: "?segs \<noteq> []" by simp
  have h3: "span_end (last ?segs) < 100" by code_simp
  have w: "write_bin ?segs 100 255 =
     Inr \<lparr>out_file = [1, 2, 255, 255, 9],
          out_stdout = [Range_report 3 8 5, Generated_report 5], out_stderr = []\<rparr>"
    by code_simp
  have s: "py_slice [1, 2, 255, 255, 9 :: byte] (7 - 3) (8 - 3) = [9]"
    by code_simp
  from base_past_data [OF h1 h2 h3, of 255] w s h1 h3 show ?thesis by simp
qed

text \<open>
  C9. For the empty span list the writer returns normally: it writes a file of length
  zero and prints the "no segments" warning on the error stream. The warning tells this
  case from every other: for a non-empty span list the writer never prints it. The whole
  run does the same when the inputs give no segment.
\<close>

theorem write_bin_no_segments:
  "write_bin [] base_addr pad =
     Inr \<lparr>out_file = [], out_stdout = [], out_stderr = [No_segments_warning]\<rparr> \<and>
   (segments \<noteq> [] \<longrightarrow>
      (case write_bin segments base_addr pad of
         Inl e \<Rightarrow> True
       | Inr w \<Rightarrow> No_segments_warning \<notin> set (out_stderr w))) \<and>
   (collect_segments pf inputs = Inr [] \<longrightarrow>
      main pf inputs base_addr pad =
        Inr \<lparr>out_file = [], out_stdout = [], out_stderr = [No_segments_warning]\<rparr>)"
  by (auto simp: write_bin_def main_def Let_def split: sum.splits prod.splits if_splits)

theorem write_bin_no_segments_witness:
  "[(0, 1, [7])] \<noteq> ([] :: span list) \<and>
   write_bin [(0, 1, [7])] 5 255 =
     Inr \<lparr>out_file = [7], out_stdout = [Range_report 0 1 1, Generated_report 1],
          out_stderr = []\<rparr> \<and>
   No_segments_warning \<notin> set [] \<and>
   collect_segments
     \<lparr>path_exists = (\<lambda>p. False), path_suffix = (\<lambda>p. ''.hex''), read_bytes = (\<lambda>p. None)\<rparr>
     [''missing.hex''] = Inr [] \<and>
   main
     \<lparr>path_exists = (\<lambda>p. False), path_suffix = (\<lambda>p. ''.hex''), read_bytes = (\<lambda>p. None)\<rparr>
     [''missing.hex''] 0x08000000 255 =
     Inr \<lparr>out_file = [], out_stdout = [], out_stderr = [No_segments_warning]\<rparr>"
proof -
  let ?pf = "\<lparr>path_exists = (\<lambda>p. False), path_suffix = (\<lambda>p. ''.hex''),
    read_bytes = (\<lambda>p. None)\<rparr>"
  have h1: "[(0, 1, [7])] \<noteq> ([] :: span list)" by simp
  have w: "write_bin [(0, 1, [7])] 5 255 =
     Inr \<lparr>out_file = [7], out_stdout = [Range_report 0 1 1, Generated_report 1],
          out_stderr = []\<rparr>" by code_simp
  have h2: "collect_segments ?pf [''missing.hex''] = Inr []" by code_simp
  from write_bin_no_segments [where segments = "[(0, 1, [7])]" and base_addr = 5 and pad = 255]
    write_bin_no_segments [where pf = ?pf and inputs = "[''missing.hex'']"
      and base_addr = "0x08000000" and pad = 255] h1 w h2
  show ?thesis by simp
qed

section \<open>The HEX decoder: records and fields\<close>









lemma c_isspace_py: "c_isspace c \<Longrightarrow> py_isspace c"
  by (auto simp: c_isspace_def py_isspace_def Let_def)

lemma set_dropWhile_cases: "c \<in> set s \<Longrightarrow> P c \<or> c \<in> set (dropWhile P s)"
proof -
  assume "c \<in> set s"
  then have "c \<in> set (takeWhile P s @ dropWhile P s)" by simp
  then have "c \<in> set (takeWhile P s) \<or> c \<in> set (dropWhile P s)"
    unfolding set_append by blast
  then show ?thesis by (auto dest: set_takeWhileD)
qed

lemma is_digit_0: "is_digit 16 (CHR ''0'')"
  by (simp add: is_digit_def digit_value_def)

lemma scan_digits_chars:
  assumes "scan_digits b nz s = Some v" "c \<in> set s"
  shows "is_digit b c \<or> c = CHR ''_'' \<or> c_isspace c"
proof -
  let ?Q = "\<lambda>c. is_digit b c \<or> c = CHR ''_''"
  from assms(1) have rest: "list_all c_isspace (dropWhile ?Q s)"
    by (simp add: scan_digits_def Let_def split: if_splits)
  from set_dropWhile_cases [OF assms(2), of ?Q] rest show ?thesis
    by (auto simp: list_all_iff)
qed

lemma skip_prefix_chars:
  assumes "c \<in> set s"
  shows "c \<in> set (skip_prefix 16 s) \<or> c = CHR ''0'' \<or> c = CHR ''x'' \<or> c = CHR ''X'' \<or> c = CHR ''_''"
proof (cases "has_prefix 16 s")
  case False
  with assms show ?thesis by (simp add: skip_prefix_def)
next
  case True
  then obtain d r where s: "s = CHR ''0'' # d # r" and d: "d = CHR ''x'' \<or> d = CHR ''X''"
    by (auto simp: has_prefix_def split: list.splits)
  show ?thesis
  proof (cases "r \<noteq> [] \<and> hd r = CHR ''_''")
    case True
    then obtain r' where r': "r = CHR ''_'' # r'" by (cases r) auto
    with s \<open>has_prefix 16 s\<close> have "skip_prefix 16 s = r'" by (simp add: skip_prefix_def)
    with assms s d r' show ?thesis by auto
  next
    case False
    with s \<open>has_prefix 16 s\<close> have "skip_prefix 16 s = r" by (auto simp: skip_prefix_def Let_def)
    with assms s d show ?thesis by auto
  qed
qed

lemma skip_sign_chars:
  assumes "c \<in> set s"
  shows "c \<in> set (skip_sign s) \<or> c = CHR ''+'' \<or> c = CHR ''-''"
  using assms by (cases s) (auto simp: skip_sign_def)

lemma py_int_16_chars:
  assumes some: "py_int 16 s = Some v" and c: "c \<in> set s"
  shows "field_char c"
proof -
  let ?s1 = "dropWhile c_isspace s"
  from some obtain w where scan: "scan_digits 16 False (skip_prefix 16 (skip_sign ?s1)) = Some w"
    by (auto simp: py_int_def Let_def split: option.splits)
  from set_dropWhile_cases [OF c, of c_isspace]
  show ?thesis
  proof
    assume "c_isspace c"
    then show ?thesis by (simp add: field_char_def c_isspace_py)
  next
    assume "c \<in> set ?s1"
    from skip_sign_chars [OF this]
    show ?thesis
    proof
      assume "c \<in> set (skip_sign ?s1)"
      from skip_prefix_chars [OF this] show ?thesis
      proof
        assume "c \<in> set (skip_prefix 16 (skip_sign ?s1))"
        from scan_digits_chars [OF scan this] show ?thesis
          by (auto simp: field_char_def c_isspace_py)
      next
        assume "c = CHR ''0'' \<or> c = CHR ''x'' \<or> c = CHR ''X'' \<or> c = CHR ''_''"
        with is_digit_0 show ?thesis by (auto simp: field_char_def)
      qed
    next
      assume "c = CHR ''+'' \<or> c = CHR ''-''"
      then show ?thesis by (auto simp: field_char_def)
    qed
  qed
qed

lemma py_int_16_rejects:
  "c \<in> set s \<Longrightarrow> \<not> field_char c \<Longrightarrow> py_int 16 s = None"
  using py_int_16_chars [of s _ c] by (cases "py_int 16 s") auto

lemma load_item_hex_raises:
  assumes "CHR ''@'' \<notin> set item" "path_exists pf item" "lower (path_suffix pf item) = ''.hex''"
    and "read_bytes pf item = Some bs" "read_hex_records bs = (cs, Some e)"
  shows "load_item pf item = Inl e"
  using assms by (simp add: load_item_def split_item_def)

lemma collect_segments_first_raises:
  "load_item pf item = Inl e \<Longrightarrow> collect_segments pf (item # items) = Inl e"
  by (simp add: collect_segments_def)

section \<open>Claims about the HEX decoder\<close>




text \<open>
  C10 as stated: a line that starts with the record mark and whose byte-count, address
  or record-type field contains a character that is not a hexadecimal digit makes the
  decoder raise. It does not always: \<^verbatim>\<open>int(field, 16)\<close> accepts a \<^verbatim>\<open>0x\<close> prefix (and a
  sign, single underscores between digits, surrounding white space). The line
  \<^verbatim>\<open>:010x1000AA\<close> has the address field \<^verbatim>\<open>0x10\<close>, which contains \<^verbatim>\<open>x\<close>, and the
  decoder yields the chunk \<open>(16, [0xAA])\<close> for it without an exception. Likewise the
  byte-count fields \<^verbatim>\<open>+1\<close> and \<^verbatim>\<open> 1\<close> are read as 1.
\<close>

theorem nonhex_field_counterexample:
  "hd (strip '':010x1000AA'') = CHR '':'' \<and>
   py_slice (strip '':010x1000AA'') 3 7 = ''0x10'' \<and>
   \<not> is_digit 16 (CHR ''x'') \<and>
   hex_loop 0 ['':010x1000AA''] = ([(16, [0xAA])], None) \<and>
   py_slice (strip '':+1000000AA'') 1 3 = ''+1'' \<and>
   hex_loop 0 ['':+1000000AA''] = ([(0, [0xAA])], None) \<and>
   py_slice (strip '': 1000000AA'') 1 3 = '' 1'' \<and>
   hex_loop 0 ['': 1000000AA''] = ([(0, [0xAA])], None)"
  by code_simp

text \<open>
  C10, amended. For every line that the loop does not skip (not empty after stripping,
  starting with the record mark) and whose byte-count, address or record-type field is
  rejected by \<^verbatim>\<open>int(field, 16)\<close>, which is the case whenever one of the three fields
  contains a character other than a hexadecimal digit, an underscore, a sign, \<^verbatim>\<open>x\<close>,
  \<^verbatim>\<open>X\<close> or white space, the decoder raises \<^verbatim>\<open>ValueError\<close> at that line: it yields no
  chunk for it and decodes no later line; and when it is the first line of a HEX input
  file, \<^verbatim>\<open>collect_segments\<close> ends with that exception.
\<close>

theorem malformed_field_raises:
  assumes "strip l \<noteq> []" "hd (strip l) = CHR '':''"
    and "py_int 16 (py_slice (strip l) 1 3) = None \<or>
         py_int 16 (py_slice (strip l) 3 7) = None \<or>
         py_int 16 (py_slice (strip l) 7 9) = None \<or>
         (\<exists>c\<in>set (py_slice (strip l) 1 3) \<union> set (py_slice (strip l) 3 7) \<union> set (py_slice (strip l) 7 9).
            \<not> field_char c)"
  shows "hex_loop ext_addr (l # ls) = ([], Some ValueError) \<and>
         (CHR ''@'' \<notin> set item \<and> path_exists pf item \<and> lower (path_suffix pf item) = ''.hex'' \<and>
          read_bytes pf item = Some bs \<and> text_lines [] (decode_ascii_ignore bs) = l # ls \<longrightarrow>
            collect_segments pf (item # items) = Inl ValueError)"
proof -
  from assms(3) have "py_int 16 (py_slice (strip l) 1 3) = None \<or>
         py_int 16 (py_slice (strip l) 3 7) = None \<or>
         py_int 16 (py_slice (strip l) 7 9) = None"
    by (metis Un_iff py_int_16_rejects)
  then have "parse_record (strip l) = Inl ValueError"
    by (auto simp: parse_record_def split: option.splits)
  with assms(1,2) have a: "hex_loop ext_addr (l # ls) = ([], Some ValueError)" for ext_addr
    by (simp add: Let_def)
  have "collect_segments pf (item # items) = Inl ValueError"
    if "CHR ''@'' \<notin> set item" "path_exists pf item" "lower (path_suffix pf item) = ''.hex''"
      "read_bytes pf item = Some bs" "text_lines [] (decode_ascii_ignore bs) = l # ls"
  proof -
    from that(5) a have "read_hex_records bs = ([], Some ValueError)"
      by (simp add: read_hex_records_def read_hex_text_def)
    from load_item_hex_raises [OF that(1-4) this] show ?thesis
      by (rule collect_segments_first_raises)
  qed
  with a show ?thesis by blast
qed

theorem malformed_field_raises_witness:
  "strip '':0g000000'' \<noteq> [] \<and> hd (strip '':0g000000'') = CHR '':'' \<and>
   CHR ''g'' \<in> set (py_slice (strip '':0g000000'') 1 3) \<and> \<not> field_char (CHR ''g'') \<and>
   hex_loop 0 ['':0g000000'', '':00000001FF''] = ([], Some ValueError) \<and>
   CHR ''@'' \<notin> set ''a.hex'' \<and>
   text_lines [] (decode_ascii_ignore [0x3A, 0x30, 0x67, 0x0A, 0x3A]) = ['':0g'' @ [CHR 0x0A], '':''] \<and>
   strip ('':0g'' @ [CHR 0x0A]) \<noteq> [] \<and> hd (strip ('':0g'' @ [CHR 0x0A])) = CHR '':'' \<and>
   CHR ''g'' \<in> set (py_slice (strip ('':0g'' @ [CHR 0x0A])) 1 3) \<and>
   collect_segments
     \<lparr>path_exists = (\<lambda>p. True), path_suffix = (\<lambda>p. ''.hex''),
      read_bytes = (\<lambda>p. Some [0x3A, 0x30, 0x67, 0x0A, 0x3A])\<rparr>
     [''a.hex'', ''b.hex''] = Inl ValueError"
proof -
  let ?pf = "\<lparr>path_exists = (\<lambda>p. True), path_suffix = (\<lambda>p. ''.hex''),
      read_bytes = (\<lambda>p. Some [0x3A, 0x30, 0x67, 0x0A, 0x3A :: byte])\<rparr>"
  have h1: "strip '':0g000000'' \<noteq> []" by code_simp
  have h2: "hd (strip '':0g000000'') = CHR '':''" by code_simp
  have h3: "CHR ''g'' \<in> set (py_slice (strip '':0g000000'') 1 3)" by code_simp
  have h4: "\<not> field_char (CHR ''g'')" by code_simp
  have k1: "strip ('':0g'' @ [CHR 0x0A]) \<noteq> []" by code_simp
  have k2: "hd (strip ('':0g'' @ [CHR 0x0A])) = CHR '':''" by code_simp
  have k3: "CHR ''g'' \<in> set (py_slice (strip ('':0g'' @ [CHR 0x0A])) 1 3)" by code_simp
  have t: "text_lines [] (decode_ascii_ignore [0x3A, 0x30, 0x67, 0x0A, 0x3A]) =
     ['':0g'' @ [CHR 0x0A], '':'']" by code_simp
  have p: "CHR ''@'' \<notin> set ''a.hex''" by simp
  have f1: "hex_loop 0 ['':0g000000'', '':00000001FF''] = ([], Some ValueError)"
    using malformed_field_raises [OF h1 h2, of 0 "['':00000001FF'']"] h3 h4 by blast
  have d: "py_int 16 (py_slice (strip ('':0g'' @ [CHR 0x0A])) 1 3) = None \<or>
         py_int 16 (py_slice (strip ('':0g'' @ [CHR 0x0A])) 3 7) = None \<or>
         py_int 16 (py_slice (strip ('':0g'' @ [CHR 0x0A])) 7 9) = None \<or>
         (\<exists>c\<in>set (py_slice (strip ('':0g'' @ [CHR 0x0A])) 1 3)
              \<union> set (py_slice (strip ('':0g'' @ [CHR 0x0A])) 3 7)
              \<union> set (py_slice (strip ('':0g'' @ [CHR 0x0A])) 7 9).
            \<not> field_char c)"
    using k3 h4 by blast
  have lw: "lower ''.hex'' = ''.hex''" by code_simp
  have pre: "CHR ''@'' \<notin> set ''a.hex'' \<and> path_exists ?pf ''a.hex'' \<and>
     lower (path_suffix ?pf ''a.hex'') = ''.hex'' \<and>
     read_bytes ?pf ''a.hex'' = Some [0x3A, 0x30, 0x67, 0x0A, 0x3A] \<and>
     text_lines [] (decode_ascii_ignore [0x3A, 0x30, 0x67, 0x0A, 0x3A]) =
       ('':0g'' @ [CHR 0x0A]) # ['':'']"
    using p t lw by simp
  have f2: "collect_segments ?pf [''a.hex'', ''b.hex''] = Inl ValueError"
    using malformed_field_raises [OF k1 k2 d, where item = "''a.hex''" and pf = ?pf
        and bs = "[0x3A, 0x30, 0x67, 0x0A, 0x3A]" and ls = "['':'']" and items = "[''b.hex'']"]
      pre by blast
  from h1 h2 h3 h4 k1 k2 k3 t p f1 f2 show ?thesis by blast
qed

section \<open>The BIN loader in \<^verbatim>\<open>collect_segments\<close>\<close>






section \<open>Claims about the BIN loader\<close>




end
